theory Spec2Isabelle
  imports Complex_Main "HOL-Library.Monad_Syntax"
begin

section \<open>Buffers and samples\<close>

text \<open>
  The transforms of \<^verbatim>\<open>fft.c\<close> work on caller-owned arrays of \<^verbatim>\<open>float\<close> and on
  \<^verbatim>\<open>complex float\<close> temporaries. The embedding is the idealised one: a \<^verbatim>\<open>float\<close> is a
  \<^typ>\<open>real\<close>, a \<^verbatim>\<open>complex float\<close> is a \<^typ>\<open>complex\<close>, \<^verbatim>\<open>PI\<close> is \<^term>\<open>pi\<close>, \<^verbatim>\<open>cexpf\<close> and
  \<^verbatim>\<open>cexp\<close> are \<^term>\<open>exp :: complex \<Rightarrow> complex\<close>, and rounding is left out. Storing a complex
  value into a \<^verbatim>\<open>float\<close> slot keeps its real part (C99 6.3.1.7), which is \<^term>\<open>Re\<close>.

  An array is a list. C leaves an access outside the array undefined; here such an access
  is the value \<^term>\<open>None\<close>, so that every read and write of the source is a checked step.
  The local arrays \<^verbatim>\<open>even\<close> and \<^verbatim>\<open>odd\<close> of \<^verbatim>\<open>fft\<close> are named \<open>even_buf\<close> and \<open>odd_buf\<close>,
  since \<open>even\<close> and \<open>odd\<close> are constants of HOL.
  The \<^verbatim>\<open>unsigned int\<close> lengths and indices are natural numbers; the index expressions of
  the source stay below the length they are compared with (see \<open>index_no_wrap\<close>).
\<close>

definition rd :: "real list \<Rightarrow> nat \<Rightarrow> real option" where
  "rd buf i = (if i < length buf then Some (buf ! i) else None)"

definition wr :: "real list \<Rightarrow> nat \<Rightarrow> real \<Rightarrow> real list option" where
  "wr buf i v = (if i < length buf then Some (buf[i := v]) else None)"

section \<open>The pass-through copier\<close>

text \<open>
  \<^verbatim>\<open>for (i = 0; i < n_frames; ++i) out_frequencies[i] = in_frames[i];\<close>
\<close>

function frames_as_frequencies_loop ::
  "real list \<Rightarrow> nat \<Rightarrow> nat \<Rightarrow> real list \<Rightarrow> real list option" where
  "frames_as_frequencies_loop in_frames n_frames i out_frequencies =
     (if i < n_frames then do {
        x \<leftarrow> rd in_frames i;
        out' \<leftarrow> wr out_frequencies i x;
        frames_as_frequencies_loop in_frames n_frames (Suc i) out'
      } else Some out_frequencies)"
  by pat_completeness auto
termination
  by (relation "measure (\<lambda>(in_frames, n_frames, i, out). n_frames - i)") auto

declare frames_as_frequencies_loop.simps [simp del]

definition frames_as_frequencies :: "real list \<Rightarrow> real list \<Rightarrow> nat \<Rightarrow> real list option" where
  "frames_as_frequencies in_frames out_frequencies n_frames =
     frames_as_frequencies_loop in_frames n_frames 0 out_frequencies"

section \<open>The discrete Fourier transform\<close>

text \<open>
  The inner loop of \<^verbatim>\<open>dft\<close>, over \<^verbatim>\<open>frame\<close>:
  \<^verbatim>\<open>float t = (float) frame / n_frames;
  out_frequencies[freq] += in_frames[frame] * cexpf(-2 * I * PI * freq * t);\<close>
  The right-hand side is complex, the sum with the \<^verbatim>\<open>float\<close> slot is complex, and the
  assignment narrows it to its real part at every step.
\<close>

function dft_frames ::
  "real list \<Rightarrow> nat \<Rightarrow> nat \<Rightarrow> nat \<Rightarrow> real list \<Rightarrow> real list option" where
  "dft_frames in_frames n_frames freq frame out_frequencies =
     (if frame < n_frames then do {
        let t = real frame / real n_frames;
        x \<leftarrow> rd in_frames frame;
        acc \<leftarrow> rd out_frequencies freq;
        out' \<leftarrow> wr out_frequencies freq
          (Re (complex_of_real acc
               + complex_of_real x
                 * exp (- 2 * \<i> * complex_of_real pi * of_nat freq * complex_of_real t)));
        dft_frames in_frames n_frames freq (Suc frame) out'
      } else Some out_frequencies)"
  by pat_completeness auto
termination
  by (relation "measure (\<lambda>(in_frames, n_frames, freq, frame, out). n_frames - frame)") auto

declare dft_frames.simps [simp del]

text \<open>
  The outer loop, over \<^verbatim>\<open>freq\<close>: \<^verbatim>\<open>out_frequencies[freq] = 0;\<close> and then the inner loop.
\<close>

function dft_freqs ::
  "real list \<Rightarrow> nat \<Rightarrow> nat \<Rightarrow> real list \<Rightarrow> real list option" where
  "dft_freqs in_frames n_frames freq out_frequencies =
     (if freq < n_frames then do {
        out0 \<leftarrow> wr out_frequencies freq 0;
        out' \<leftarrow> dft_frames in_frames n_frames freq 0 out0;
        dft_freqs in_frames n_frames (Suc freq) out'
      } else Some out_frequencies)"
  by pat_completeness auto
termination
  by (relation "measure (\<lambda>(in_frames, n_frames, freq, out). n_frames - freq)") auto

declare dft_freqs.simps [simp del]

definition dft :: "real list \<Rightarrow> real list \<Rightarrow> nat \<Rightarrow> real list option" where
  "dft in_frames out_frequencies n_frames = dft_freqs in_frames n_frames 0 out_frequencies"

section \<open>The fast Fourier transform\<close>

text \<open>
  The split loop fills the two local arrays:
  \<^verbatim>\<open>even[i] = in_frames[i * 2]; odd[i] = in_frames[i * 2 + 1];\<close>
\<close>

function fft_split ::
  "real list \<Rightarrow> nat \<Rightarrow> nat \<Rightarrow> real list \<Rightarrow> real list \<Rightarrow> (real list \<times> real list) option" where
  "fft_split in_frames window i even_buf odd_buf =
     (if i < window div 2 then do {
        e \<leftarrow> rd in_frames (i * 2);
        even_buf' \<leftarrow> wr even_buf i e;
        d \<leftarrow> rd in_frames (i * 2 + 1);
        odd_buf' \<leftarrow> wr odd_buf i d;
        fft_split in_frames window (Suc i) even_buf' odd_buf'
      } else Some (even_buf, odd_buf))"
  by pat_completeness auto
termination
  by (relation "measure (\<lambda>(in_frames, window, i, even_buf, odd_buf). window div 2 - i)") auto

declare fft_split.simps [simp del]

text \<open>
  The combine loop reads the local arrays \<^verbatim>\<open>even\<close> and \<^verbatim>\<open>odd\<close> and writes two output slots:
  \<^verbatim>\<open>complex float twiddle = cexp(-2.0 * I * PI * (float)i / (float)window) * odd[i];
  out_frequencies[i] = even[i] + twiddle;
  out_frequencies[i + window / 2] = even[i] - twiddle;\<close>
\<close>

function fft_combine ::
  "nat \<Rightarrow> real list \<Rightarrow> real list \<Rightarrow> nat \<Rightarrow> real list \<Rightarrow> real list option" where
  "fft_combine window even_buf odd_buf i out_frequencies =
     (if i < window div 2 then do {
        d \<leftarrow> rd odd_buf i;
        let twiddle = exp (- 2 * \<i> * complex_of_real pi * of_nat i / of_nat window)
                      * complex_of_real d;
        e \<leftarrow> rd even_buf i;
        out1 \<leftarrow> wr out_frequencies i (Re (complex_of_real e + twiddle));
        e' \<leftarrow> rd even_buf i;
        out2 \<leftarrow> wr out1 (i + window div 2) (Re (complex_of_real e' - twiddle));
        fft_combine window even_buf odd_buf (Suc i) out2
      } else Some out_frequencies)"
  by pat_completeness auto
termination
  by (relation "measure (\<lambda>(window, even_buf, odd_buf, i, out). window div 2 - i)") auto

declare fft_combine.simps [simp del]

text \<open>
  \<^verbatim>\<open>fft\<close> itself. The variable-length arrays \<^verbatim>\<open>even\<close> and \<^verbatim>\<open>odd\<close> have \<^verbatim>\<open>window / 2\<close>
  cells of indeterminate content, taken as \<open>0\<close> here; the split loop overwrites every
  cell before any is read (\<open>fft_split_any_start\<close>). Both recursive calls receive
  the caller's output array, which is threaded through them, and the combine loop then
  runs on the local arrays and the array the second call has left.
\<close>

function fft :: "real list \<Rightarrow> real list \<Rightarrow> nat \<Rightarrow> real list option" where
  "fft in_frames out_frequencies window =
     (if window \<le> 1 then Some out_frequencies
      else do {
        (even_buf, odd_buf) \<leftarrow> fft_split in_frames window 0
                         (replicate (window div 2) 0) (replicate (window div 2) 0);
        out1 \<leftarrow> fft even_buf out_frequencies (window div 2);
        out2 \<leftarrow> fft odd_buf out1 (window div 2);
        fft_combine window even_buf odd_buf 0 out2
      })"
  by pat_completeness auto
termination
  by (relation "measure (\<lambda>(in_frames, out, window). window)") auto

declare fft.simps [simp del]

text \<open>
  The same function once more, returning next to the output array the number of activation
  frames of \<^verbatim>\<open>fft\<close> that are on the stack at the deepest point of the call: one for a
  call that returns at the base case, one more than the deeper of its two recursive calls
  otherwise.
\<close>

function fft_stack :: "real list \<Rightarrow> real list \<Rightarrow> nat \<Rightarrow> (real list \<times> nat) option" where
  "fft_stack in_frames out_frequencies window =
     (if window \<le> 1 then Some (out_frequencies, 1)
      else do {
        (even_buf, odd_buf) \<leftarrow> fft_split in_frames window 0
                         (replicate (window div 2) 0) (replicate (window div 2) 0);
        (out1, depth1) \<leftarrow> fft_stack even_buf out_frequencies (window div 2);
        (out2, depth2) \<leftarrow> fft_stack odd_buf out1 (window div 2);
        out3 \<leftarrow> fft_combine window even_buf odd_buf 0 out2;
        Some (out3, Suc (max depth1 depth2))
      })"
  by pat_completeness auto
termination
  by (relation "measure (\<lambda>(in_frames, out, window). window)") auto

declare fft_stack.simps [simp del]

section \<open>What the specification says of the transforms\<close>

text \<open>
  The sum of the specification for bin \<open>freq\<close> of the discrete transform, as a complex
  number: \<open>\<Sum>t<n. in[t] \<cdot> exp(-2\<pi>i \<cdot> freq \<cdot> t / n)\<close>.
\<close>

definition dft_spec :: "real list \<Rightarrow> nat \<Rightarrow> nat \<Rightarrow> complex" where
  "dft_spec in_frames n freq =
     (\<Sum>t<n. complex_of_real (in_frames ! t)
             * exp (- 2 * \<i> * complex_of_real pi * of_nat freq * of_nat t / of_nat n))"

text \<open>
  The combine step of the specification, on the transforms of the two halves:
  \<open>out[i] = even_result[i] + t \<cdot> odd_result[i]\<close> and
  \<open>out[i + window/2] = even_result[i] - t \<cdot> odd_result[i]\<close> with
  \<open>t = exp(-2\<pi>i \<cdot> i / window)\<close>, stored as real parts.
\<close>

definition cooley_tukey_combine :: "nat \<Rightarrow> real list \<Rightarrow> real list \<Rightarrow> real list" where
  "cooley_tukey_combine window even_result odd_result =
     map (\<lambda>i. Re (complex_of_real (even_result ! i)
                   + exp (- 2 * \<i> * complex_of_real pi * of_nat i / of_nat window)
                     * complex_of_real (odd_result ! i)))
       [0..<window div 2]
     @ map (\<lambda>i. Re (complex_of_real (even_result ! i)
                     - exp (- 2 * \<i> * complex_of_real pi * of_nat i / of_nat window)
                       * complex_of_real (odd_result ! i)))
       [0..<window div 2]"

text \<open>
  One butterfly stage on the input as it is: the split loop and the combine loop of
  \<^verbatim>\<open>fft\<close>, without the two recursive calls between them.
\<close>

definition butterfly_stage :: "real list \<Rightarrow> real list \<Rightarrow> nat \<Rightarrow> real list option" where
  "butterfly_stage in_frames out_frequencies window =
     do {
       (even_buf, odd_buf) \<leftarrow> fft_split in_frames window 0
                        (replicate (window div 2) 0) (replicate (window div 2) 0);
       fft_combine window even_buf odd_buf 0 out_frequencies
     }"

text \<open>The sequence \<open>a\<cdot>x + b\<cdot>y\<close>, sample by sample.\<close>

definition lin_comb :: "real \<Rightarrow> real list \<Rightarrow> real \<Rightarrow> real list \<Rightarrow> real list" where
  "lin_comb a x b y = map2 (\<lambda>u v. a * u + b * v) x y"

section \<open>Accesses in range\<close>

text \<open>An access below the length of the array succeeds.\<close>

lemma rd_Some [simp]: "i < length buf \<Longrightarrow> rd buf i = Some (buf ! i)"
  by (simp add: rd_def)

lemma wr_Some [simp]: "i < length buf \<Longrightarrow> wr buf i v = Some (buf[i := v])"
  by (simp add: wr_def)

text \<open>
  The indices of \<^verbatim>\<open>fft\<close> are \<^verbatim>\<open>unsigned int\<close>: for \<open>i < window / 2\<close> none of
  \<open>i * 2\<close>, \<open>i * 2 + 1\<close> and \<open>i + window / 2\<close> wraps around at \<open>2 ^ 32\<close>.
\<close>

lemma index_no_wrap:
  fixes window i :: nat
  assumes "window < 2 ^ 32" and "i < window div 2"
  shows "(i * 2) mod 2 ^ 32 = i * 2" and "(i * 2 + 1) mod 2 ^ 32 = i * 2 + 1"
    and "(i + window div 2) mod 2 ^ 32 = i + window div 2"
proof -
  have "i * 2 + 1 < window" and "i + window div 2 < window" using assms(2) by linarith+
  then show "(i * 2) mod 2 ^ 32 = i * 2" and "(i * 2 + 1) mod 2 ^ 32 = i * 2 + 1"
    and "(i + window div 2) mod 2 ^ 32 = i + window div 2"
    using assms(1) by simp_all
qed

section \<open>Real parts of the complex exponentials\<close>

lemma twiddle_arg:
  "exp (- 2 * \<i> * complex_of_real pi * of_nat i / of_nat w) = cis (- (2 * pi * real i / real w))"
  by (simp add: cis_conv_exp mult_ac)

lemma Re_exp_twiddle:
  "Re (exp (- (2 * \<i> * complex_of_real pi * of_nat i / of_nat w))) = cos (2 * pi * real i / real w)"
  using arg_cong [OF twiddle_arg [of i w], of Re] by simp

lemma Re_exp_dft:
  "Re (exp (- (2 * \<i> * complex_of_real pi * of_nat freq * of_nat frame / of_nat n)))
     = cos (2 * pi * real freq * real frame / real n)"
proof -
  have "- (2 * \<i> * complex_of_real pi * of_nat freq * of_nat frame / of_nat n)
          = \<i> * complex_of_real (- (2 * pi * real freq * real frame / real n))"
    by (simp add: mult_ac)
  then show ?thesis by (simp only: cis_conv_exp [symmetric]) simp
qed

section \<open>The loops of the fast transform\<close>

text \<open>
  The split loop, started at \<open>i\<close>, keeps the cells below \<open>i\<close> and fills the others from
  the input; started at \<open>0\<close> it overwrites every cell, whatever the arrays held.
\<close>

lemma fft_split_run:
  assumes "2 * (window div 2) \<le> length in_frames"
    and "length ev = window div 2" and "length od = window div 2" and "i \<le> window div 2"
  shows "fft_split in_frames window i ev od =
           Some (take i ev @ map (\<lambda>j. in_frames ! (j * 2)) [i..<window div 2],
                 take i od @ map (\<lambda>j. in_frames ! (j * 2 + 1)) [i..<window div 2])"
  using assms
proof (induction "window div 2 - i" arbitrary: i ev od)
  case 0
  then show ?case by (simp add: fft_split.simps)
next
  case (Suc k)
  then have lt: "i < window div 2" by simp
  with Suc.prems have r1: "i * 2 < length in_frames" "i * 2 + 1 < length in_frames" by simp_all
  let ?ev = "ev[i := in_frames ! (i * 2)]" and ?od = "od[i := in_frames ! (i * 2 + 1)]"
  have step: "fft_split in_frames window i ev od = fft_split in_frames window (Suc i) ?ev ?od"
    using lt r1 Suc.prems by (subst fft_split.simps) simp
  have ih: "fft_split in_frames window (Suc i) ?ev ?od =
           Some (take (Suc i) ?ev @ map (\<lambda>j. in_frames ! (j * 2)) [Suc i..<window div 2],
                 take (Suc i) ?od @ map (\<lambda>j. in_frames ! (j * 2 + 1)) [Suc i..<window div 2])"
    using Suc.hyps(2) Suc.prems lt by (intro Suc.hyps(1)) simp_all
  show ?case unfolding step ih using lt Suc.prems
    by (simp add: take_Suc_conv_app_nth upt_conv_Cons)
qed


lemma fft_split_any_start:
  assumes "window \<le> length in_frames"
    and "length ev = window div 2" and "length od = window div 2"
  shows "fft_split in_frames window 0 ev od =
           Some (map (\<lambda>j. in_frames ! (j * 2)) [0..<window div 2],
                 map (\<lambda>j. in_frames ! (j * 2 + 1)) [0..<window div 2])"
proof -
  have "2 * (window div 2) \<le> length in_frames" using assms(1) by simp
  from fft_split_run [OF this assms(2,3), of 0] show ?thesis by simp
qed

text \<open>
  The combine loop: one step, and the array it leaves when started at \<open>i\<close>.
\<close>

lemma fft_combine_step:
  assumes "i < window div 2" and "window div 2 \<le> length ev" and "window div 2 \<le> length od"
    and "2 * (window div 2) \<le> length out"
  shows "fft_combine window ev od i out =
           fft_combine window ev od (Suc i)
             (out[i := ev ! i + cos (2 * pi * real i / real window) * od ! i,
                  i + window div 2 := ev ! i - cos (2 * pi * real i / real window) * od ! i])"
  using assms
  by (subst fft_combine.simps) (simp add: Let_def Re_exp_twiddle)

lemma fft_combine_run:
  assumes "h = window div 2" and "h \<le> length ev" and "h \<le> length od"
    and "2 * h \<le> length out" and "i \<le> h"
  shows "\<exists>out'. fft_combine window ev od i out = Some out' \<and> length out' = length out \<and>
           (\<forall>j<length out. out' ! j =
              (if i \<le> j \<and> j < h then ev ! j + cos (2 * pi * real j / real window) * od ! j
               else if h + i \<le> j \<and> j < 2 * h
                    then ev ! (j - h) - cos (2 * pi * real (j - h) / real window) * od ! (j - h)
               else out ! j))"
  using assms
proof (induction "h - i" arbitrary: i out)
  case 0
  then show ?case by (simp add: fft_combine.simps)
next
  case (Suc k)
  then have lt: "i < window div 2" by simp
  let ?out2 = "out[i := ev ! i + cos (2 * pi * real i / real window) * od ! i,
                  i + window div 2 := ev ! i - cos (2 * pi * real i / real window) * od ! i]"
  have step: "fft_combine window ev od i out = fft_combine window ev od (Suc i) ?out2"
    using lt Suc.prems by (intro fft_combine_step) simp_all
  have "\<exists>out'. fft_combine window ev od (Suc i) ?out2 = Some out' \<and> length out' = length ?out2 \<and>
           (\<forall>j<length ?out2. out' ! j =
              (if Suc i \<le> j \<and> j < h then ev ! j + cos (2 * pi * real j / real window) * od ! j
               else if h + Suc i \<le> j \<and> j < 2 * h
                    then ev ! (j - h) - cos (2 * pi * real (j - h) / real window) * od ! (j - h)
               else ?out2 ! j))"
    using Suc.hyps(2) Suc.prems lt by (intro Suc.hyps(1)) simp_all
  then obtain out' where o: "fft_combine window ev od (Suc i) ?out2 = Some out'"
    "length out' = length out"
    "\<And>j. j < length out \<Longrightarrow> out' ! j =
              (if Suc i \<le> j \<and> j < h then ev ! j + cos (2 * pi * real j / real window) * od ! j
               else if h + Suc i \<le> j \<and> j < 2 * h
                    then ev ! (j - h) - cos (2 * pi * real (j - h) / real window) * od ! (j - h)
               else ?out2 ! j)"
    by auto
  have "out' ! j =
              (if i \<le> j \<and> j < h then ev ! j + cos (2 * pi * real j / real window) * od ! j
               else if h + i \<le> j \<and> j < 2 * h
                    then ev ! (j - h) - cos (2 * pi * real (j - h) / real window) * od ! (j - h)
               else out ! j)" if "j < length out" for j
  proof -
    consider "j = i" | "j = h + i" | "j \<noteq> i" "j \<noteq> h + i" by blast
    then show ?thesis
    proof cases
      case 1
      then show ?thesis using o(3) [OF that] that lt Suc.prems(1,4)
        by (simp add: nth_list_update)
    next
      case 2
      then have "j - h = i" by simp
      then show ?thesis using 2 o(3) [OF that] that lt Suc.prems(1,4)
        by (simp add: nth_list_update add.commute)
    next
      case 3
      then show ?thesis using o(3) [OF that] that lt Suc.prems(1,4)
        by (auto simp: nth_list_update add.commute)
    qed
  qed
  with o(1,2) step show ?case by simp
qed

section \<open>The output of the fast transform\<close>

text \<open>
  A call with \<open>window \<ge> 2\<close> is its two recursive calls on the halves followed by the
  combine loop on the halves.
\<close>

lemma fft_unfold:
  assumes "2 \<le> window" and "window \<le> length in_frames"
  shows "fft in_frames out window =
           do {
             out1 \<leftarrow> fft (map (\<lambda>j. in_frames ! (j * 2)) [0..<window div 2]) out (window div 2);
             out2 \<leftarrow> fft (map (\<lambda>j. in_frames ! (j * 2 + 1)) [0..<window div 2]) out1 (window div 2);
             fft_combine window (map (\<lambda>j. in_frames ! (j * 2)) [0..<window div 2])
               (map (\<lambda>j. in_frames ! (j * 2 + 1)) [0..<window div 2]) 0 out2
           }"
  using assms by (subst fft.simps) (simp add: fft_split_any_start)

text \<open>
  Every call returns, keeps the length of the output array and leaves the cells from
  \<open>window\<close> on as they were: by induction on \<open>window\<close>, the recursive calls being on
  \<open>window div 2\<close>.
\<close>

lemma fft_frame:
  assumes "window \<le> length in_frames" and "window \<le> length out"
  shows "\<exists>out'. fft in_frames out window = Some out' \<and> length out' = length out \<and>
           (\<forall>j. window \<le> j \<longrightarrow> j < length out \<longrightarrow> out' ! j = out ! j)"
  using assms
proof (induction window arbitrary: in_frames out rule: less_induct)
  case (less window)
  show ?case
  proof (cases "window \<le> 1")
    case True
    then show ?thesis by (simp add: fft.simps)
  next
    case False
    define h where "h = window div 2"
    define ev where "ev = map (\<lambda>j. in_frames ! (j * 2)) [0..<h]"
    define od where "od = map (\<lambda>j. in_frames ! (j * 2 + 1)) [0..<h]"
    have h: "h < window" "2 * h \<le> window" "h \<le> length ev" "h \<le> length od"
      using False by (simp_all add: h_def ev_def od_def)
    obtain out1 where o1: "fft ev out h = Some out1" "length out1 = length out"
      "\<And>j. h \<le> j \<Longrightarrow> j < length out \<Longrightarrow> out1 ! j = out ! j"
      using less.IH [of h ev out] h less.prems by auto
    obtain out2 where o2: "fft od out1 h = Some out2" "length out2 = length out"
      "\<And>j. h \<le> j \<Longrightarrow> j < length out \<Longrightarrow> out2 ! j = out1 ! j"
      using less.IH [of h od out1] h less.prems o1(2) by auto
    have "2 * h \<le> length out2" using h less.prems o2(2) by simp
    from fft_combine_run [OF h_def h(3,4) this, of 0]
    obtain out' where o': "fft_combine window ev od 0 out2 = Some out'"
      "length out' = length out"
      "\<And>j. j < length out \<Longrightarrow> 2 * h \<le> j \<Longrightarrow> out' ! j = out2 ! j"
      by (auto simp: o2(2))
    have "fft in_frames out window = Some out'"
      using False less.prems(1) o1(1) o2(1) o'(1) unfolding h_def ev_def od_def
      by (simp add: fft_unfold)
    moreover have "out' ! j = out ! j" if "window \<le> j" "j < length out" for j
      using that h o'(3) [of j] o2(3) [of j] o1(3) [of j] by simp
    ultimately show ?thesis using o'(2) by simp
  qed
qed

text \<open>
  The output cell by cell. The recursive calls write below \<open>window div 2\<close> only, and the
  combine loop overwrites these cells from the local arrays.
\<close>

lemma fft_run:
  assumes "2 \<le> window" and "window \<le> length in_frames" and "window \<le> length out"
  shows "\<exists>out'. fft in_frames out window = Some out' \<and> length out' = length out \<and>
           (\<forall>j<length out. out' ! j =
              (if j < window div 2
               then in_frames ! (j * 2)
                    + cos (2 * pi * real j / real window) * in_frames ! (j * 2 + 1)
               else if j < 2 * (window div 2)
               then in_frames ! ((j - window div 2) * 2)
                    - cos (2 * pi * real (j - window div 2) / real window)
                      * in_frames ! ((j - window div 2) * 2 + 1)
               else out ! j))"
proof -
  define h where "h = window div 2"
  define ev where "ev = map (\<lambda>j. in_frames ! (j * 2)) [0..<h]"
  define od where "od = map (\<lambda>j. in_frames ! (j * 2 + 1)) [0..<h]"
  have h: "h < window" "2 * h \<le> window" "h \<le> length ev" "h \<le> length od"
    using assms(1) by (simp_all add: h_def ev_def od_def)
  obtain out1 where o1: "fft ev out h = Some out1" "length out1 = length out"
    "\<And>j. h \<le> j \<Longrightarrow> j < length out \<Longrightarrow> out1 ! j = out ! j"
    using fft_frame [of h ev out] h assms by auto
  obtain out2 where o2: "fft od out1 h = Some out2" "length out2 = length out"
    "\<And>j. h \<le> j \<Longrightarrow> j < length out \<Longrightarrow> out2 ! j = out1 ! j"
    using fft_frame [of h od out1] h assms o1(2) by auto
  obtain out' where o': "fft_combine window ev od 0 out2 = Some out'"
    "length out' = length out"
    "\<And>j. j < length out \<Longrightarrow> out' ! j =
        (if j < h then ev ! j + cos (2 * pi * real j / real window) * od ! j
         else if h \<le> j \<and> j < 2 * h
              then ev ! (j - h) - cos (2 * pi * real (j - h) / real window) * od ! (j - h)
         else out2 ! j)"
    using fft_combine_run [OF h_def h(3,4), of out2 0] h assms o2(2)
    by auto
  have run: "fft in_frames out window = Some out'"
    using assms o1(1) o2(1) o'(1) unfolding h_def ev_def od_def
    by (simp add: fft_unfold)
  have "out' ! j =
              (if j < h
               then in_frames ! (j * 2)
                    + cos (2 * pi * real j / real window) * in_frames ! (j * 2 + 1)
               else if j < 2 * h
               then in_frames ! ((j - h) * 2)
                    - cos (2 * pi * real (j - h) / real window)
                      * in_frames ! ((j - h) * 2 + 1)
               else out ! j)" if "j < length out" for j
  proof -
    consider "j < h" | "h \<le> j" "j < 2 * h" | "2 * h \<le> j" by linarith
    then show ?thesis
    proof cases
      case 1
      then show ?thesis using o'(3) [OF that] by (simp add: ev_def od_def)
    next
      case 2
      then have "j - h < h" by simp
      then show ?thesis using 2 o'(3) [OF that] by (simp add: ev_def od_def del: of_nat_diff)
    next
      case 3
      then show ?thesis using that h o'(3) [OF that] o2(3) [of j] o1(3) [of j] by simp
    qed
  qed
  with run o'(2) show ?thesis unfolding h_def by blast
qed

lemma fft_list:
  assumes "2 \<le> window" and "window \<le> length in_frames" and "window \<le> length out"
  shows "fft in_frames out window =
           Some (map (\<lambda>j. in_frames ! (j * 2)
                            + cos (2 * pi * real j / real window) * in_frames ! (j * 2 + 1))
                   [0..<window div 2]
                 @ map (\<lambda>j. in_frames ! (j * 2)
                            - cos (2 * pi * real j / real window) * in_frames ! (j * 2 + 1))
                   [0..<window div 2]
                 @ drop (2 * (window div 2)) out)"
    (is "_ = Some ?rhs")
proof -
  from fft_run [OF assms] obtain out' where o: "fft in_frames out window = Some out'"
    "length out' = length out"
    "\<And>j. j < length out \<Longrightarrow> out' ! j =
              (if j < window div 2
               then in_frames ! (j * 2)
                    + cos (2 * pi * real j / real window) * in_frames ! (j * 2 + 1)
               else if j < 2 * (window div 2)
               then in_frames ! ((j - window div 2) * 2)
                    - cos (2 * pi * real (j - window div 2) / real window)
                      * in_frames ! ((j - window div 2) * 2 + 1)
               else out ! j)"
    by blast
  have len: "length ?rhs = length out" using assms(3) by simp
  have "out' = ?rhs"
  proof (rule nth_equalityI)
    show "length out' = length ?rhs" using o(2) len by simp
  next
    fix j assume "j < length out'"
    then have j: "j < length out" using o(2) by simp
    consider "j < window div 2" | "window div 2 \<le> j" "j < 2 * (window div 2)"
      | "2 * (window div 2) \<le> j" by linarith
    then show "out' ! j = ?rhs ! j"
    proof cases
      case 1
      then show ?thesis using o(3) [OF j] by (simp add: nth_append)
    next
      case 2
      then have "j - window div 2 < window div 2" by simp
      then show ?thesis using 2 o(3) [OF j] by (simp add: nth_append del: of_nat_diff)
    next
      case 3
      then have "\<not> j - window div 2 < window div 2" by simp
      then show ?thesis using 3 j o(3) [OF j] by (simp add: nth_append)
    qed
  qed
  with o(1) show ?thesis by simp
qed

section \<open>The loops and the output of the discrete transform\<close>

lemma dft_frames_step:
  assumes "frame < n" and "n \<le> length in_frames" and "freq < length out"
  shows "dft_frames in_frames n freq frame out =
           dft_frames in_frames n freq (Suc frame)
             (out[freq := out ! freq
                          + in_frames ! frame * cos (2 * pi * real freq * real frame / real n)])"
  using assms
  by (subst dft_frames.simps) (simp add: Let_def Re_exp_dft)

lemma dft_frames_run:
  assumes "n \<le> length in_frames" and "freq < length out" and "frame \<le> n"
  shows "dft_frames in_frames n freq frame out =
           Some (out[freq := out ! freq
                   + (\<Sum>t = frame..<n. in_frames ! t * cos (2 * pi * real freq * real t / real n))])"
  using assms
proof (induction "n - frame" arbitrary: frame out)
  case 0
  then show ?case by (simp add: dft_frames.simps)
next
  case (Suc k)
  then have lt: "frame < n" by simp
  let ?out = "out[freq := out ! freq
                + in_frames ! frame * cos (2 * pi * real freq * real frame / real n)]"
  have "dft_frames in_frames n freq (Suc frame) ?out =
          Some (?out[freq := ?out ! freq
                   + (\<Sum>t = Suc frame..<n. in_frames ! t * cos (2 * pi * real freq * real t / real n))])"
    using Suc.hyps(2) Suc.prems lt by (intro Suc.hyps(1)) simp_all
  then show ?case
    using lt Suc.prems
    by (simp add: dft_frames_step sum.atLeast_Suc_lessThan add.assoc)
qed

lemma dft_freqs_step:
  assumes "freq < n" and "n \<le> length in_frames" and "n \<le> length out"
  shows "dft_freqs in_frames n freq out =
           dft_freqs in_frames n (Suc freq)
             (out[freq := (\<Sum>t<n. in_frames ! t * cos (2 * pi * real freq * real t / real n))])"
  using assms
  by (subst dft_freqs.simps) (simp add: dft_frames_run atLeast0LessThan)

lemma dft_freqs_run:
  assumes "n \<le> length in_frames" and "n \<le> length out" and "freq \<le> n"
  shows "\<exists>out'. dft_freqs in_frames n freq out = Some out' \<and> length out' = length out \<and>
           (\<forall>j<length out. out' ! j =
              (if freq \<le> j \<and> j < n
               then (\<Sum>t<n. in_frames ! t * cos (2 * pi * real j * real t / real n))
               else out ! j))"
  using assms
proof (induction "n - freq" arbitrary: freq out)
  case 0
  then show ?case by (simp add: dft_freqs.simps)
next
  case (Suc k)
  then have lt: "freq < n" by simp
  let ?out = "out[freq := (\<Sum>t<n. in_frames ! t * cos (2 * pi * real freq * real t / real n))]"
  have "\<exists>out'. dft_freqs in_frames n (Suc freq) ?out = Some out' \<and> length out' = length ?out \<and>
           (\<forall>j<length ?out. out' ! j =
              (if Suc freq \<le> j \<and> j < n
               then (\<Sum>t<n. in_frames ! t * cos (2 * pi * real j * real t / real n))
               else ?out ! j))"
    using Suc.hyps(2) Suc.prems lt by (intro Suc.hyps(1)) simp_all
  then obtain out' where o: "dft_freqs in_frames n (Suc freq) ?out = Some out'"
    "length out' = length out"
    "\<And>j. j < length out \<Longrightarrow> out' ! j =
              (if Suc freq \<le> j \<and> j < n
               then (\<Sum>t<n. in_frames ! t * cos (2 * pi * real j * real t / real n))
               else ?out ! j)"
    by auto
  have "out' ! j =
              (if freq \<le> j \<and> j < n
               then (\<Sum>t<n. in_frames ! t * cos (2 * pi * real j * real t / real n))
               else out ! j)" if "j < length out" for j
    using o(3) [OF that] that lt by (cases "j = freq") (auto simp: nth_list_update)
  with o(1,2) lt Suc.prems show ?case by (simp add: dft_freqs_step)
qed

lemma dft_run:
  assumes "n \<le> length in_frames" and "n \<le> length out"
  shows "\<exists>out'. dft in_frames out n = Some out' \<and> length out' = length out \<and>
           (\<forall>j<length out. out' ! j =
              (if j < n
               then (\<Sum>t<n. in_frames ! t * cos (2 * pi * real j * real t / real n))
               else out ! j))"
  using dft_freqs_run [OF assms, of 0] by (simp add: dft_def)

lemma dft_list:
  assumes "n \<le> length in_frames" and "n \<le> length out"
  shows "dft in_frames out n =
           Some (map (\<lambda>j. \<Sum>t<n. in_frames ! t * cos (2 * pi * real j * real t / real n)) [0..<n]
                 @ drop n out)"
    (is "_ = Some ?rhs")
proof -
  from dft_run [OF assms] obtain out' where o: "dft in_frames out n = Some out'"
    "length out' = length out"
    "\<And>j. j < length out \<Longrightarrow> out' ! j =
              (if j < n
               then (\<Sum>t<n. in_frames ! t * cos (2 * pi * real j * real t / real n))
               else out ! j)"
    by blast
  have "out' = ?rhs"
  proof (rule nth_equalityI)
    show "length out' = length ?rhs" using o(2) assms(2) by simp
  next
    fix j assume "j < length out'"
    then have j: "j < length out" using o(2) by simp
    show "out' ! j = ?rhs ! j"
      using j o(3) [OF j] by (cases "j < n") (simp_all add: nth_append)
  qed
  with o(1) show ?thesis by simp
qed

section \<open>Sums over the roots of unity\<close>

lemma cis_root_sum:
  assumes "0 < j" and "j < n"
  shows "(\<Sum>t<n. cis (2 * pi * real j * real t / real n)) = 0"
proof -
  define z where "z = cis (2 * pi * real j / real n)"
  have zt: "cis (2 * pi * real j * real t / real n) = z ^ t" for t
    by (simp add: z_def DeMoivre mult_ac)
  have zn: "z ^ n = 1"
  proof -
    have "z ^ n = cis (2 * pi * real j)" using assms by (simp add: z_def DeMoivre)
    then show ?thesis by simp
  qed
  have z1: "z \<noteq> 1"
  proof
    assume "z = 1"
    then have "Re (cis (2 * pi * real j / real n)) = Re 1"
      by (simp only: z_def)
    then have "cos (2 * pi * real j / real n) = 1" by simp
    then obtain m :: int where m: "2 * pi * real j / real n = real_of_int m * 2 * pi"
      using cos_one_2pi_int by blast
    then have "(2 * pi) * (real j / real n) = (2 * pi) * real_of_int m"
      by (simp add: mult_ac)
    then have "real j / real n = real_of_int m"
      using mult_left_cancel [of "2 * pi" "real j / real n" "real_of_int m"] by simp
    then have "real j = real_of_int m * real n" using assms by (simp add: field_simps)
    then have "int j = m * int n" by (metis of_int_eq_iff of_int_mult of_int_of_nat_eq)
    then have "int n dvd int j" by simp
    then have "n dvd j" by (simp only: int_dvd_int_iff)
    then show False using assms by (auto dest: dvd_imp_le)
  qed
  have "(\<Sum>t<n. z ^ t) = (z ^ n - 1) / (z - 1)" using z1 by (rule geometric_sum)
  then show ?thesis by (simp add: zt zn)
qed

lemma cos_root_sum:
  assumes "0 < j" and "j < n"
  shows "(\<Sum>t<n. cos (2 * pi * real j * real t / real n)) = 0"
  using arg_cong [OF cis_root_sum [OF assms], of Re] by simp

lemma dft_dc:
  assumes "n \<le> length out"
  shows "dft (replicate n c) out n = Some ((if n = 0 then [] else c * real n # replicate (n - 1) 0) @ drop n out)"
proof -
  have "map (\<lambda>j. \<Sum>t<n. replicate n c ! t * cos (2 * pi * real j * real t / real n)) [0..<n]
          = (if n = 0 then [] else c * real n # replicate (n - 1) 0)" (is "?l = ?r")
  proof (rule nth_equalityI)
    show "length ?l = length ?r" by simp
  next
    fix j assume "j < length ?l"
    then have j: "j < n" by simp
    have s: "?l ! j = c * (\<Sum>t<n. cos (2 * pi * real j * real t / real n))"
      using j by (simp add: sum_distrib_left)
    show "?l ! j = ?r ! j"
    proof (cases "j = 0")
      case True
      then show ?thesis unfolding s using j by simp
    next
      case False
      then show ?thesis unfolding s using j by (simp add: cos_root_sum nth_Cons')
    qed
  qed
  then show ?thesis using assms by (simp add: dft_list)
qed

section \<open>The butterfly stage, the stack and linear combinations\<close>

text \<open>
  The butterfly stage on the input as it is leaves the same array, cell by cell, as the
  combine loop of \<^verbatim>\<open>fft\<close> does.
\<close>

lemma butterfly_stage_run:
  assumes "2 \<le> window" and "window \<le> length in_frames" and "window \<le> length out"
  shows "\<exists>out'. butterfly_stage in_frames out window = Some out' \<and> length out' = length out \<and>
           (\<forall>j<length out. out' ! j =
              (if j < window div 2
               then in_frames ! (j * 2)
                    + cos (2 * pi * real j / real window) * in_frames ! (j * 2 + 1)
               else if j < 2 * (window div 2)
               then in_frames ! ((j - window div 2) * 2)
                    - cos (2 * pi * real (j - window div 2) / real window)
                      * in_frames ! ((j - window div 2) * 2 + 1)
               else out ! j))"
proof -
  define h where "h = window div 2"
  define ev where "ev = map (\<lambda>j. in_frames ! (j * 2)) [0..<h]"
  define od where "od = map (\<lambda>j. in_frames ! (j * 2 + 1)) [0..<h]"
  have h: "2 * h \<le> length out" "h \<le> length ev" "h \<le> length od"
    using assms by (simp_all add: h_def ev_def od_def)
  obtain out' where o': "fft_combine window ev od 0 out = Some out'"
    "length out' = length out"
    "\<And>j. j < length out \<Longrightarrow> out' ! j =
        (if j < h then ev ! j + cos (2 * pi * real j / real window) * od ! j
         else if h \<le> j \<and> j < 2 * h
              then ev ! (j - h) - cos (2 * pi * real (j - h) / real window) * od ! (j - h)
         else out ! j)"
    using fft_combine_run [OF h_def h(2,3,1), of 0] by auto
  have run: "butterfly_stage in_frames out window = Some out'"
    using assms o'(1) unfolding h_def ev_def od_def
    by (simp add: butterfly_stage_def fft_split_any_start)
  have "out' ! j =
              (if j < h
               then in_frames ! (j * 2)
                    + cos (2 * pi * real j / real window) * in_frames ! (j * 2 + 1)
               else if j < 2 * h
               then in_frames ! ((j - h) * 2)
                    - cos (2 * pi * real (j - h) / real window)
                      * in_frames ! ((j - h) * 2 + 1)
               else out ! j)" if "j < length out" for j
  proof -
    consider "j < h" | "h \<le> j" "j < 2 * h" | "2 * h \<le> j" by linarith
    then show ?thesis
    proof cases
      case 1
      then show ?thesis using o'(3) [OF that] by (simp add: ev_def od_def)
    next
      case 2
      then have "j - h < h" by simp
      then show ?thesis using 2 o'(3) [OF that] by (simp add: ev_def od_def del: of_nat_diff)
    next
      case 3
      then show ?thesis using o'(3) [OF that] by simp
    qed
  qed
  with run o'(2) show ?thesis unfolding h_def by blast
qed

lemma fft_eq_butterfly_stage:
  assumes "2 \<le> window" and "window \<le> length in_frames" and "window \<le> length out"
  shows "fft in_frames out window = butterfly_stage in_frames out window"
proof -
  from fft_run [OF assms] obtain a where a: "fft in_frames out window = Some a"
    "length a = length out"
    "\<forall>j<length out. a ! j =
              (if j < window div 2
               then in_frames ! (j * 2)
                    + cos (2 * pi * real j / real window) * in_frames ! (j * 2 + 1)
               else if j < 2 * (window div 2)
               then in_frames ! ((j - window div 2) * 2)
                    - cos (2 * pi * real (j - window div 2) / real window)
                      * in_frames ! ((j - window div 2) * 2 + 1)
               else out ! j)"
    by blast
  from butterfly_stage_run [OF assms] obtain b where b: "butterfly_stage in_frames out window = Some b"
    "length b = length out"
    "\<forall>j<length out. b ! j =
              (if j < window div 2
               then in_frames ! (j * 2)
                    + cos (2 * pi * real j / real window) * in_frames ! (j * 2 + 1)
               else if j < 2 * (window div 2)
               then in_frames ! ((j - window div 2) * 2)
                    - cos (2 * pi * real (j - window div 2) / real window)
                      * in_frames ! ((j - window div 2) * 2 + 1)
               else out ! j)"
    by blast
  have "a = b"
    by (rule nth_equalityI) (simp_all add: a(2,3) b(2,3))
  with a(1) b(1) show ?thesis by simp
qed

text \<open>
  On a window \<open>2 ^ (k + 1)\<close> both recursive calls reach depth \<open>k + 1\<close>, so the call has
  \<open>k + 2\<close> frames at its deepest point, the first being its own.
\<close>

lemma fft_stack_power_of_two:
  assumes "window = 2 ^ k" and "window \<le> length in_frames" and "window \<le> length out"
  shows "fft_stack in_frames out window = map_option (\<lambda>out'. (out', Suc k)) (fft in_frames out window)"
  using assms
proof (induction k arbitrary: window in_frames out)
  case 0
  then show ?case by (simp add: fft_stack.simps fft.simps)
next
  case (Suc k)
  define h where "h = window div 2"
  define ev where "ev = map (\<lambda>j. in_frames ! (j * 2)) [0..<h]"
  define od where "od = map (\<lambda>j. in_frames ! (j * 2 + 1)) [0..<h]"
  have h: "h = 2 ^ k" "2 \<le> window" "2 * h \<le> window" "h \<le> length ev" "h \<le> length od"
    using Suc.prems(1) by (simp_all add: h_def ev_def od_def)
  obtain out1 where o1: "fft ev out h = Some out1" "length out1 = length out"
    using fft_frame [of h ev out] h Suc.prems by auto
  obtain out2 where o2: "fft od out1 h = Some out2" "length out2 = length out"
    using fft_frame [of h od out1] h Suc.prems o1(2) by auto
  have s1: "fft_stack ev out h = Some (out1, Suc k)"
    using Suc.IH [of h ev out] h Suc.prems o1(1) by simp
  have s2: "fft_stack od out1 h = Some (out2, Suc k)"
    using Suc.IH [of h od out1] h Suc.prems o1(2) o2(1) by simp
  have "fft_stack in_frames out window =
          map_option (\<lambda>out'. (out', Suc (Suc k))) (fft_combine window ev od 0 out2)"
    using h(2) Suc.prems(2) s1 s2 unfolding h_def ev_def od_def
    by (subst fft_stack.simps) (simp add: fft_split_any_start map_option_case split: option.split)
  moreover have "fft in_frames out window = fft_combine window ev od 0 out2"
    using h(2) Suc.prems(2) o1(1) o2(1) unfolding h_def ev_def od_def
    by (simp add: fft_unfold)
  ultimately show ?case by simp
qed

lemma Re_dft_spec:
  "Re (dft_spec in_frames n freq)
     = (\<Sum>t<n. in_frames ! t * cos (2 * pi * real freq * real t / real n))"
  by (simp add: dft_spec_def Re_exp_dft)

text \<open>
  Both transforms of \<open>a\<cdot>x + b\<cdot>y\<close>, into output arrays of any content. The fast one
  needs an even window of at least \<open>2\<close> for every bin to be written.
\<close>

lemma length_lin_comb: "length (lin_comb a x b y) = min (length x) (length y)"
  by (simp add: lin_comb_def)

lemma nth_lin_comb:
  "t < length x \<Longrightarrow> t < length y \<Longrightarrow> lin_comb a x b y ! t = a * x ! t + b * y ! t"
  by (simp add: lin_comb_def)

lemma dft_linear:
  assumes "length x = n" and "length y = n"
    and "n \<le> length out_x" and "n \<le> length out_y" and "n \<le> length out_z"
  shows "\<exists>fx fy fz. dft x out_x n = Some fx \<and> dft y out_y n = Some fy \<and>
           dft (lin_comb a x b y) out_z n = Some fz \<and>
           (\<forall>k<n. fz ! k = a * fx ! k + b * fy ! k)"
proof -
  let ?c = "\<lambda>k t. cos (2 * pi * real k * real t / real n)"
  have lz: "n \<le> length (lin_comb a x b y)" using assms(1,2) by (simp add: length_lin_comb)
  from dft_run [of n x out_x] assms obtain fx where fx: "dft x out_x n = Some fx"
    "\<And>k. k < n \<Longrightarrow> fx ! k = (\<Sum>t<n. x ! t * ?c k t)"
    by force
  from dft_run [of n y out_y] assms obtain fy where fy: "dft y out_y n = Some fy"
    "\<And>k. k < n \<Longrightarrow> fy ! k = (\<Sum>t<n. y ! t * ?c k t)"
    by force
  from dft_run [OF lz assms(5)] assms obtain fz where fz:
    "dft (lin_comb a x b y) out_z n = Some fz"
    "\<And>k. k < n \<Longrightarrow> fz ! k = (\<Sum>t<n. lin_comb a x b y ! t * ?c k t)"
    by force
  have "fz ! k = a * fx ! k + b * fy ! k" if "k < n" for k
  proof -
    have "(\<Sum>t<n. lin_comb a x b y ! t * ?c k t)
            = (\<Sum>t<n. a * (x ! t * ?c k t) + b * (y ! t * ?c k t))"
      using assms(1,2) by (intro sum.cong) (simp_all add: nth_lin_comb algebra_simps)
    also have "\<dots> = a * (\<Sum>t<n. x ! t * ?c k t) + b * (\<Sum>t<n. y ! t * ?c k t)"
      by (simp add: sum.distrib sum_distrib_left)
    finally show ?thesis using that by (simp add: fx(2) fy(2) fz(2))
  qed
  with fx(1) fy(1) fz(1) show ?thesis by blast
qed

lemma fft_linear:
  assumes "length x = n" and "length y = n"
    and "n \<le> length out_x" and "n \<le> length out_y" and "n \<le> length out_z"
    and "n = 2 ^ Suc m"
  shows "\<exists>fx fy fz. fft x out_x n = Some fx \<and> fft y out_y n = Some fy \<and>
           fft (lin_comb a x b y) out_z n = Some fz \<and>
           (\<forall>k<n. fz ! k = a * fx ! k + b * fy ! k)"
proof -
  let ?c = "\<lambda>j. cos (2 * pi * real j / real n)"
  let ?v = "\<lambda>u k. if k < n div 2 then u ! (k * 2) + ?c k * u ! (k * 2 + 1)
                   else u ! ((k - n div 2) * 2) - ?c (k - n div 2) * u ! ((k - n div 2) * 2 + 1)"
  have n: "2 \<le> n" "2 * (n div 2) = n" using assms(6) by simp_all
  have lz: "n \<le> length (lin_comb a x b y)" using assms(1,2) by (simp add: length_lin_comb)
  have v: "\<exists>f. fft u out n = Some f \<and> (\<forall>k<n. f ! k = ?v u k)"
    if "n \<le> length u" "n \<le> length out" for u out
  proof -
    from fft_run [OF n(1) that] obtain f where f: "fft u out n = Some f"
      "\<And>j. j < length out \<Longrightarrow> f ! j =
              (if j < n div 2
               then u ! (j * 2) + cos (2 * pi * real j / real n) * u ! (j * 2 + 1)
               else if j < 2 * (n div 2)
               then u ! ((j - n div 2) * 2)
                    - cos (2 * pi * real (j - n div 2) / real n) * u ! ((j - n div 2) * 2 + 1)
               else out ! j)"
      by blast
    have "f ! k = ?v u k" if "k < n" for k
      using f(2) [of k] that \<open>n \<le> length out\<close> n(2) by simp
    with f(1) show ?thesis by blast
  qed
  from v [of x out_x] assms obtain fx where fx: "fft x out_x n = Some fx"
    "\<And>k. k < n \<Longrightarrow> fx ! k = ?v x k" by auto
  from v [of y out_y] assms obtain fy where fy: "fft y out_y n = Some fy"
    "\<And>k. k < n \<Longrightarrow> fy ! k = ?v y k" by auto
  from v [OF lz assms(5)] obtain fz where fz: "fft (lin_comb a x b y) out_z n = Some fz"
    "\<And>k. k < n \<Longrightarrow> fz ! k = ?v (lin_comb a x b y) k" by auto
  have "fz ! k = a * fx ! k + b * fy ! k" if k: "k < n" for k
  proof -
    define i where "i = (if k < n div 2 then k else k - n div 2)"
    have i: "i * 2 < n" "i * 2 + 1 < n" using k n(2) unfolding i_def by (simp_all; linarith)+
    have lc: "lin_comb a x b y ! (i * 2) = a * x ! (i * 2) + b * y ! (i * 2)"
      "lin_comb a x b y ! (i * 2 + 1) = a * x ! (i * 2 + 1) + b * y ! (i * 2 + 1)"
      using i assms(1,2) by (simp_all only: nth_lin_comb)
    show ?thesis
    proof (cases "k < n div 2")
      case True
      then have "fx ! k = x ! (i * 2) + ?c i * x ! (i * 2 + 1)"
        "fy ! k = y ! (i * 2) + ?c i * y ! (i * 2 + 1)"
        "fz ! k = lin_comb a x b y ! (i * 2) + ?c i * lin_comb a x b y ! (i * 2 + 1)"
        using fx(2) [OF k] fy(2) [OF k] fz(2) [OF k] by (simp_all add: i_def)
      then show ?thesis by (simp only: lc) (simp add: algebra_simps)
    next
      case False
      then have "fx ! k = x ! (i * 2) - ?c i * x ! (i * 2 + 1)"
        "fy ! k = y ! (i * 2) - ?c i * y ! (i * 2 + 1)"
        "fz ! k = lin_comb a x b y ! (i * 2) - ?c i * lin_comb a x b y ! (i * 2 + 1)"
        using fx(2) [OF k] fy(2) [OF k] fz(2) [OF k] by (simp_all add: i_def del: of_nat_diff)
      then show ?thesis by (simp only: lc) (simp add: algebra_simps)
    qed
  qed
  with fx(1) fy(1) fz(1) show ?thesis by blast
qed

text \<open>On a window of two samples the fast transform and the discrete one agree.\<close>

lemma fft_dft_agree_window_2:
  assumes "2 \<le> length in_frames" and "2 \<le> length out"
  shows "fft in_frames out 2 = dft in_frames out 2"
  using assms by (simp add: fft_list dft_list upt_conv_Cons lessThan_Suc numeral_2_eq_2)

section \<open>The base case of the fast transform\<close>

text \<open>
  C6. For \<open>window \<le> 1\<close>, that is \<open>window = 0\<close> or \<open>window = 1\<close>, and for every input and
  output array, \<^verbatim>\<open>fft\<close> returns without writing: every element of the output array is
  exactly as it was before the call.
\<close>

theorem fft_base_case_no_write:
  "window \<le> 1 \<Longrightarrow> fft in_frames out_frequencies window = Some out_frequencies"
  by (simp add: fft.simps)

theorem fft_base_case_no_write_witness:
  "(1::nat) \<le> 1 \<and> fft [5] [7] 1 = Some [7] \<and> fft [] [7, 8] 0 = Some [7, 8]"
  using fft_base_case_no_write [of 1 "[5]" "[7]"] fft_base_case_no_write [of 0 "[]" "[7, 8]"]
  by simp

text \<open>
  C4, as stated: \<^verbatim>\<open>fft\<close> with \<open>window = 1\<close> returns with the element of the output array
  equal to the input sample, whatever the output array held before. The base case returns
  before any write, so with the sample \<open>1\<close> and an output array holding \<open>0\<close> the output
  array still holds \<open>0\<close>.
\<close>

theorem fft_single_sample_counterexample:
  "fft [1] [0] 1 = Some [0] \<and> fft [1] [0] 1 \<noteq> Some [1]"
  by (simp add: fft.simps)

text \<open>
  C4, amended: for every single-element input, \<^verbatim>\<open>fft\<close> with \<open>window = 1\<close> returns with
  the output array exactly as it was before the call; its element equals the input sample
  if and only if it did so before the call.
\<close>

theorem fft_single_sample_unchanged_output:
  "fft in_frames out_frequencies 1 = Some out_frequencies \<and>
   (\<exists>out'. fft in_frames out_frequencies 1 = Some out' \<and>
            (out' ! 0 = in_frames ! 0 \<longleftrightarrow> out_frequencies ! 0 = in_frames ! 0))"
  by (simp add: fft.simps)

section \<open>One butterfly stage on the input\<close>

text \<open>
  C3. For every \<open>window \<ge> 2\<close> and every input, the output of \<^verbatim>\<open>fft\<close> is that of one
  butterfly stage on the input as it is: for each \<open>i < window / 2\<close>, \<open>out[i]\<close> is the real
  part of \<open>in[2i] + exp(-2\<pi>i \<cdot> i / window) \<cdot> in[2i+1]\<close> and \<open>out[i + window/2]\<close> is the
  real part of \<open>in[2i] - exp(-2\<pi>i \<cdot> i / window) \<cdot> in[2i+1]\<close>. What the two recursive calls
  write into the output array is overwritten by the combine loop and has no influence on
  the result: the call returns what the split and combine loops alone return on the
  caller's output array. The arrays hold at least \<open>window\<close> elements.
\<close>

theorem fft_single_butterfly_stage:
  assumes "2 \<le> window" and "window \<le> length in_frames"
    and "window \<le> length out_frequencies"
  shows "\<exists>out'. fft in_frames out_frequencies window = Some out' \<and>
           butterfly_stage in_frames out_frequencies window = Some out' \<and>
           (\<forall>i<window div 2.
              out' ! i =
                Re (complex_of_real (in_frames ! (2 * i))
                    + exp (- 2 * \<i> * complex_of_real pi * of_nat i / of_nat window)
                      * complex_of_real (in_frames ! (2 * i + 1))) \<and>
              out' ! (i + window div 2) =
                Re (complex_of_real (in_frames ! (2 * i))
                    - exp (- 2 * \<i> * complex_of_real pi * of_nat i / of_nat window)
                      * complex_of_real (in_frames ! (2 * i + 1))))"
proof -
  from fft_run [OF assms] obtain out' where o: "fft in_frames out_frequencies window = Some out'"
    "length out' = length out_frequencies"
    "\<And>j. j < length out_frequencies \<Longrightarrow> out' ! j =
              (if j < window div 2
               then in_frames ! (j * 2)
                    + cos (2 * pi * real j / real window) * in_frames ! (j * 2 + 1)
               else if j < 2 * (window div 2)
               then in_frames ! ((j - window div 2) * 2)
                    - cos (2 * pi * real (j - window div 2) / real window)
                      * in_frames ! ((j - window div 2) * 2 + 1)
               else out_frequencies ! j)"
    by blast
  have b: "butterfly_stage in_frames out_frequencies window = Some out'"
    using fft_eq_butterfly_stage [OF assms] o(1) by simp
  have "out' ! i = Re (complex_of_real (in_frames ! (2 * i))
                    + exp (- 2 * \<i> * complex_of_real pi * of_nat i / of_nat window)
                      * complex_of_real (in_frames ! (2 * i + 1)))
      \<and> out' ! (i + window div 2) = Re (complex_of_real (in_frames ! (2 * i))
                    - exp (- 2 * \<i> * complex_of_real pi * of_nat i / of_nat window)
                      * complex_of_real (in_frames ! (2 * i + 1)))"
    if i: "i < window div 2" for i
  proof -
    have "i < length out_frequencies" "i + window div 2 < length out_frequencies"
      using i assms(3) by linarith+
    then show ?thesis
      using i o(3) [of i] o(3) [of "i + window div 2"]
      by (simp add: Re_exp_twiddle mult.commute [of 2 i])
  qed
  with o(1) b show ?thesis by blast
qed

theorem fft_single_butterfly_stage_witness:
  "(2::nat) \<le> 4 \<and> 4 \<le> length [1, 2, 3, 4 :: real] \<and> 4 \<le> length [9, 9, 9, 9 :: real] \<and>
   (\<exists>out'. fft [1, 2, 3, 4] [9, 9, 9, 9] 4 = Some out' \<and>
            butterfly_stage [1, 2, 3, 4] [9, 9, 9, 9] 4 = Some out' \<and>
            out' ! 0 = 3 \<and> out' ! 1 = 3 \<and> out' ! 2 = - 1 \<and> out' ! 3 = 3)"
proof -
  have "\<exists>out'. fft [1, 2, 3, 4] [9, 9, 9, 9] 4 = Some out' \<and>
           butterfly_stage [1, 2, 3, 4] [9, 9, 9, 9] 4 = Some out' \<and>
           (\<forall>i<4 div 2.
              out' ! i =
                Re (complex_of_real ([1, 2, 3, 4] ! (2 * i))
                    + exp (- 2 * \<i> * complex_of_real pi * of_nat i / of_nat 4)
                      * complex_of_real ([1, 2, 3, 4] ! (2 * i + 1))) \<and>
              out' ! (i + 4 div 2) =
                Re (complex_of_real ([1, 2, 3, 4] ! (2 * i))
                    - exp (- 2 * \<i> * complex_of_real pi * of_nat i / of_nat 4)
                      * complex_of_real ([1, 2, 3, 4] ! (2 * i + 1))))"
    by (rule fft_single_butterfly_stage) simp_all
  then obtain out' where o: "fft [1, 2, 3, 4] [9, 9, 9, 9] 4 = Some out'"
    "butterfly_stage [1, 2, 3, 4] [9, 9, 9, 9] 4 = Some out'"
    "\<And>i. i < 4 div 2 \<Longrightarrow>
              out' ! i =
                Re (complex_of_real ([1, 2, 3, 4] ! (2 * i))
                    + exp (- 2 * \<i> * complex_of_real pi * of_nat i / of_nat 4)
                      * complex_of_real ([1, 2, 3, 4] ! (2 * i + 1))) \<and>
              out' ! (i + 4 div 2) =
                Re (complex_of_real ([1, 2, 3, 4] ! (2 * i))
                    - exp (- 2 * \<i> * complex_of_real pi * of_nat i / of_nat 4)
                      * complex_of_real ([1, 2, 3, 4] ! (2 * i + 1)))"
    by blast
  have i: "(0::nat) < 4 div 2" "(1::nat) < 4 div 2" by simp_all
  have e: "(0::nat) + 4 div 2 = 2" "(1::nat) + 4 div 2 = 3" by simp_all
  have "out' ! 0 = 3 \<and> out' ! 2 = - 1" using o(3) [OF i(1)] unfolding e by simp
  moreover have "out' ! 1 = 3 \<and> out' ! 3 = 3"
    using o(3) [OF i(2)] Re_exp_twiddle [of 1 4] unfolding e by simp
  ultimately show ?thesis using o(1,2) by simp
qed

text \<open>
  C2. The combine step is to work on the transforms of the two halves: with
  \<open>even_result\<close> and \<open>odd_result\<close> the transforms of the even-indexed and the odd-indexed
  half, \<open>out[i] = even_result[i] + t \<cdot> odd_result[i]\<close> and
  \<open>out[i + window/2] = even_result[i] - t \<cdot> odd_result[i]\<close>. The code combines the halves
  themselves. On the input \<open>[0, 0, 1, 0]\<close> the halves are \<open>[0, 1]\<close> and \<open>[0, 0]\<close>, their
  transforms are \<open>[1, -1]\<close> and \<open>[0, 0]\<close>, the combine step of the specification gives
  \<open>[1, -1, 1, -1]\<close>, and \<^verbatim>\<open>fft\<close> returns \<open>[0, 1, 0, 1]\<close>.
\<close>

theorem fft_combines_raw_halves:
  "fft [0, 0, 1, 0] [0, 0, 0, 0] 4 = Some [0, 1, 0, 1] \<and>
   fft [0, 1] [0, 0] 2 = Some [1, - 1] \<and>
   fft [0, 0] [0, 0] 2 = Some [0, 0] \<and>
   cooley_tukey_combine 4 [1, - 1] [0, 0] = [1, - 1, 1, - 1]"
  by (simp add: fft_list cooley_tukey_combine_def upt_conv_Cons)

section \<open>The accesses of the fast transform\<close>

text \<open>
  C10. For every \<open>window\<close>, a power of two or not, and arrays of at least \<open>window\<close>
  elements, every access of \<^verbatim>\<open>fft\<close> is in range, so the call returns an array and not
  \<^term>\<open>None\<close>; the output array keeps its length and every element at an index
  \<open>\<ge> window\<close>. Reads stay below \<open>window\<close> in the input and writes below \<open>window\<close> in
  the output: on both arrays cut to their first \<open>window\<close> elements, where any other
  access is out of range, the call returns the first \<open>window\<close> elements of the same
  result.
\<close>

theorem fft_accesses_in_range:
  assumes "window \<le> length in_frames" and "window \<le> length out_frequencies"
  shows "\<exists>out'. fft in_frames out_frequencies window = Some out' \<and>
           length out' = length out_frequencies \<and>
           (\<forall>j. window \<le> j \<longrightarrow> j < length out_frequencies \<longrightarrow> out' ! j = out_frequencies ! j) \<and>
           fft (take window in_frames) (take window out_frequencies) window
             = Some (take window out')"
proof -
  from fft_frame [OF assms] obtain out' where o:
    "fft in_frames out_frequencies window = Some out'"
    "length out' = length out_frequencies"
    "\<forall>j. window \<le> j \<longrightarrow> j < length out_frequencies \<longrightarrow> out' ! j = out_frequencies ! j"
    by blast
  have "fft (take window in_frames) (take window out_frequencies) window
          = Some (take window out')"
  proof (cases "window \<le> 1")
    case True
    then show ?thesis using o(1) by (simp add: fft.simps)
  next
    case False
    then have w: "2 \<le> window" by simp
    have lt: "window \<le> length (take window in_frames)"
      "window \<le> length (take window out_frequencies)"
      using assms by simp_all
    have ix: "j * 2 < window" "j * 2 + 1 < window" if "j < window div 2" for j
      using that by linarith+
    have "out' = map (\<lambda>j. in_frames ! (j * 2)
                            + cos (2 * pi * real j / real window) * in_frames ! (j * 2 + 1))
                   [0..<window div 2]
                 @ map (\<lambda>j. in_frames ! (j * 2)
                            - cos (2 * pi * real j / real window) * in_frames ! (j * 2 + 1))
                   [0..<window div 2]
                 @ drop (2 * (window div 2)) out_frequencies"
      using fft_list [OF w assms] o(1) by simp
    then have "take window out' =
                 map (\<lambda>j. in_frames ! (j * 2)
                            + cos (2 * pi * real j / real window) * in_frames ! (j * 2 + 1))
                   [0..<window div 2]
                 @ map (\<lambda>j. in_frames ! (j * 2)
                            - cos (2 * pi * real j / real window) * in_frames ! (j * 2 + 1))
                   [0..<window div 2]
                 @ take (window - 2 * (window div 2)) (drop (2 * (window div 2)) out_frequencies)"
      by (simp add: mult_2 [symmetric])
    moreover have "drop (2 * (window div 2)) (take window out_frequencies)
        = take (window - 2 * (window div 2)) (drop (2 * (window div 2)) out_frequencies)"
      by (simp add: drop_take)
    moreover have "map (\<lambda>j. take window in_frames ! (j * 2)
                            + cos (2 * pi * real j / real window) * take window in_frames ! (j * 2 + 1))
                   [0..<window div 2]
          = map (\<lambda>j. in_frames ! (j * 2)
                            + cos (2 * pi * real j / real window) * in_frames ! (j * 2 + 1))
                   [0..<window div 2]"
      using ix by (intro map_cong) simp_all
    moreover have "map (\<lambda>j. take window in_frames ! (j * 2)
                            - cos (2 * pi * real j / real window) * take window in_frames ! (j * 2 + 1))
                   [0..<window div 2]
          = map (\<lambda>j. in_frames ! (j * 2)
                            - cos (2 * pi * real j / real window) * in_frames ! (j * 2 + 1))
                   [0..<window div 2]"
      using ix by (intro map_cong) simp_all
    ultimately show ?thesis by (simp only: fft_list [OF w lt])
  qed
  with o show ?thesis by blast
qed

theorem fft_accesses_in_range_witness:
  "(3::nat) \<le> length [1, 2, 3 :: real] \<and> 3 \<le> length [7, 8, 9, 10 :: real] \<and>
   fft [1, 2, 3] [7, 8, 9, 10] 3 = Some [3, - 1, 9, 10] \<and>
   fft [1, 2, 3] [7, 8, 9] 3 = Some [3, - 1, 9]"
proof -
  have "\<exists>out'. fft [1, 2, 3] [7, 8, 9, 10] 3 = Some out' \<and>
           length out' = length [7, 8, 9, 10 :: real] \<and>
           (\<forall>j. 3 \<le> j \<longrightarrow> j < length [7, 8, 9, 10 :: real] \<longrightarrow> out' ! j = [7, 8, 9, 10] ! j) \<and>
           fft (take 3 [1, 2, 3]) (take 3 [7, 8, 9, 10]) 3 = Some (take 3 out')"
    by (rule fft_accesses_in_range) simp_all
  moreover have "fft [1, 2, 3] [7, 8, 9, 10] 3 = Some [3, - 1, 9, 10]"
    by (simp add: fft_list upt_conv_Cons)
  ultimately show ?thesis by auto
qed

section \<open>Termination of the fast transform\<close>

text \<open>
  C9. For every power-of-two window \<open>2 ^ k\<close>, \<^verbatim>\<open>fft\<close> terminates. The definition of
  \<^const>\<open>fft\<close> is accepted with the measure \<open>window\<close>, each recursive call being on
  \<open>window div 2\<close>, so the function is total; on arrays of at least \<open>window\<close> elements the
  call returns an array, and it does so with \<open>k + 1 = log\<^sub>2 window + 1\<close> nested frames at
  the deepest point, the innermost being a call at the base case.
\<close>

theorem fft_terminates_log_depth:
  assumes "window = 2 ^ k" and "window \<le> length in_frames"
    and "window \<le> length out_frequencies"
  shows "\<exists>out'. fft in_frames out_frequencies window = Some out' \<and>
           fft_stack in_frames out_frequencies window = Some (out', Suc k)"
proof -
  from fft_frame [OF assms(2,3)] obtain out' where
    "fft in_frames out_frequencies window = Some out'" by blast
  then show ?thesis using fft_stack_power_of_two [OF assms] by simp
qed

theorem fft_terminates_log_depth_witness:
  "(8::nat) = 2 ^ 3 \<and> 8 \<le> length [1, 2, 3, 4, 5, 6, 7, 8 :: real] \<and>
   8 \<le> length [0, 0, 0, 0, 0, 0, 0, 0 :: real] \<and>
   (\<exists>out'. fft [1, 2, 3, 4, 5, 6, 7, 8] [0, 0, 0, 0, 0, 0, 0, 0] 8 = Some out' \<and>
            fft_stack [1, 2, 3, 4, 5, 6, 7, 8] [0, 0, 0, 0, 0, 0, 0, 0] 8 = Some (out', 4))"
  using fft_terminates_log_depth [of 8 3 "[1, 2, 3, 4, 5, 6, 7, 8]" "[0, 0, 0, 0, 0, 0, 0, 0]"]
  by simp

section \<open>The discrete transform computes the sum of the specification\<close>

text \<open>
  C5. For every \<open>n \<ge> 0\<close> and every input of \<open>n\<close> samples, \<^verbatim>\<open>dft\<close> writes into every bin
  \<open>freq < n\<close> the real part of \<open>\<Sum>t<n. in[t] \<cdot> exp(-2\<pi>i \<cdot> freq \<cdot> t / n)\<close>: the code narrows
  to the real part at every step of the sum, and the real part of the sum is the same. The
  elements from \<open>n\<close> on are kept, and for \<open>n = 0\<close> the call changes nothing.
\<close>

theorem dft_computes_sum:
  assumes "n \<le> length in_frames" and "n \<le> length out_frequencies"
  shows "\<exists>out'. dft in_frames out_frequencies n = Some out' \<and>
           length out' = length out_frequencies \<and>
           (\<forall>freq<n. out' ! freq = Re (dft_spec in_frames n freq)) \<and>
           (\<forall>j. n \<le> j \<longrightarrow> j < length out_frequencies \<longrightarrow> out' ! j = out_frequencies ! j) \<and>
           dft in_frames out_frequencies 0 = Some out_frequencies"
proof -
  from dft_run [OF assms] obtain out' where o: "dft in_frames out_frequencies n = Some out'"
    "length out' = length out_frequencies"
    "\<And>j. j < length out_frequencies \<Longrightarrow> out' ! j =
              (if j < n
               then (\<Sum>t<n. in_frames ! t * cos (2 * pi * real j * real t / real n))
               else out_frequencies ! j)"
    by blast
  have "out' ! freq = Re (dft_spec in_frames n freq)" if "freq < n" for freq
    using that assms(2) o(3) [of freq] by (simp add: Re_dft_spec)
  moreover have "out' ! j = out_frequencies ! j" if "n \<le> j" "j < length out_frequencies" for j
    using that o(3) [of j] by simp
  moreover have "dft in_frames out_frequencies 0 = Some out_frequencies"
    by (simp add: dft_def dft_freqs.simps)
  ultimately show ?thesis using o(1,2) by blast
qed

theorem dft_computes_sum_witness:
  "(2::nat) \<le> length [3, 5 :: real] \<and> 2 \<le> length [7, 7, 7 :: real] \<and>
   (\<exists>out'. dft [3, 5] [7, 7, 7] 2 = Some out' \<and> length out' = 3 \<and>
            out' ! 0 = 8 \<and> out' ! 1 = - 2 \<and> out' ! 2 = 7) \<and>
   dft [3, 5] [7, 7, 7] 0 = Some [7, 7, 7]"
proof -
  have "\<exists>out'. dft [3, 5] [7, 7, 7] 2 = Some out' \<and>
           length out' = length [7, 7, 7 :: real] \<and>
           (\<forall>freq<2. out' ! freq = Re (dft_spec [3, 5] 2 freq)) \<and>
           (\<forall>j. 2 \<le> j \<longrightarrow> j < length [7, 7, 7 :: real] \<longrightarrow> out' ! j = [7, 7, 7] ! j) \<and>
           dft [3, 5] [7, 7, 7] 0 = Some [7, 7, 7]"
    by (rule dft_computes_sum) simp_all
  then obtain out' where o: "dft [3, 5] [7, 7, 7] 2 = Some out'"
    "length out' = 3"
    "\<And>freq. freq < 2 \<Longrightarrow> out' ! freq = Re (dft_spec [3, 5] 2 freq)"
    "\<And>j. 2 \<le> j \<Longrightarrow> j < 3 \<Longrightarrow> out' ! j = [7, 7, 7 :: real] ! j"
    "dft [3, 5] [7, 7, 7] 0 = Some [7, 7, 7]"
    by auto
  have s0: "Re (dft_spec [3, 5] 2 0) = 8"
    by (simp add: Re_dft_spec lessThan_Suc numeral_2_eq_2)
  have s1: "Re (dft_spec [3, 5] 2 1) = - 2"
    by (simp add: Re_dft_spec lessThan_Suc numeral_2_eq_2)
  have "out' ! 0 = 8" using o(3) [of 0] s0 by simp
  moreover have "out' ! 1 = - 2" using o(3) [of 1] s1 by simp
  moreover have "out' ! 2 = 7" using o(4) [of 2] by simp
  ultimately show ?thesis using o(1,2,5) by simp
qed

section \<open>The fast transform against the discrete one\<close>

text \<open>
  C1. For a power-of-two length between \<open>2\<close> and \<open>256\<close> the outputs of \<^verbatim>\<open>fft\<close> and \<^verbatim>\<open>dft\<close>
  are to agree in every bin. They do for length \<open>2\<close> (\<open>fft_dft_agree_window_2\<close>). For
  length \<open>4\<close> and the input \<open>[1, 0, 0, 0]\<close> the discrete transform is \<open>[1, 1, 1, 1]\<close> and
  \<^verbatim>\<open>fft\<close> returns \<open>[1, 0, 1, 0]\<close>: its combine loop reads the halves of the input, not their
  transforms.
\<close>

theorem fft_differs_from_dft:
  "fft [1, 0, 0, 0] [0, 0, 0, 0] 4 = Some [1, 0, 1, 0] \<and>
   dft [1, 0, 0, 0] [0, 0, 0, 0] 4 = Some [1, 1, 1, 1]"
  by (simp add: fft_list dft_list upt_conv_Cons lessThan_nat_numeral lessThan_Suc)

section \<open>Linearity\<close>

text \<open>
  C7, as stated: both transforms are linear, the fast one for every power-of-two length.
  Length \<open>1\<close> is a power of two, and there \<^verbatim>\<open>fft\<close> leaves the output array as it was: with
  \<open>x = y = [0]\<close>, \<open>a = b = 1\<close> and an output array holding \<open>1\<close>, the transform of
  \<open>a\<cdot>x + b\<cdot>y\<close> is \<open>[1]\<close>, and so are the transforms of \<open>x\<close> and of \<open>y\<close>, whose combination
  is \<open>[2]\<close>.
\<close>

theorem fft_linearity_counterexample:
  "fft (lin_comb 1 [0] 1 [0]) [1] 1 = Some [1] \<and> fft [0] [1] 1 = Some [1] \<and>
   lin_comb 1 [1] 1 [1] = [2] \<and> lin_comb 1 [1] 1 [1] \<noteq> [1]"
  by (simp add: fft.simps lin_comb_def)

text \<open>
  C7, amended: for all scalars \<open>a\<close>, \<open>b\<close> and sequences \<open>x\<close>, \<open>y\<close> of the same length
  \<open>n\<close>, the transform of \<open>a\<cdot>x + b\<cdot>y\<close> is, bin by bin, \<open>a\<close> times the transform of \<open>x\<close> plus
  \<open>b\<close> times the transform of \<open>y\<close>: for \<^verbatim>\<open>dft\<close> and every \<open>n\<close>, and for \<^verbatim>\<open>fft\<close> and every
  power of two \<open>n \<ge> 2\<close>. The three calls may write into different output arrays.
\<close>

theorem transforms_linear:
  assumes "length x = n" and "length y = n"
    and "n \<le> length out_x" and "n \<le> length out_y" and "n \<le> length out_z"
  shows "(\<exists>fx fy fz. dft x out_x n = Some fx \<and> dft y out_y n = Some fy \<and>
            dft (lin_comb a x b y) out_z n = Some fz \<and>
            (\<forall>k<n. fz ! k = a * fx ! k + b * fy ! k)) \<and>
         ((\<exists>m. n = 2 ^ Suc m) \<longrightarrow>
          (\<exists>fx fy fz. fft x out_x n = Some fx \<and> fft y out_y n = Some fy \<and>
            fft (lin_comb a x b y) out_z n = Some fz \<and>
            (\<forall>k<n. fz ! k = a * fx ! k + b * fy ! k)))"
  using dft_linear [OF assms] fft_linear [OF assms] by blast

theorem transforms_linear_witness:
  "length [1, 2 :: real] = 2 \<and> length [3, 5 :: real] = 2 \<and> (2::nat) = 2 ^ Suc 0 \<and>
   dft [1, 2] [0, 0] 2 = Some [3, - 1] \<and> dft [3, 5] [9, 9] 2 = Some [8, - 2] \<and>
   dft (lin_comb 2 [1, 2] 3 [3, 5]) [4, 4] 2 = Some [30, - 8] \<and>
   fft [1, 2] [0, 0] 2 = Some [3, - 1] \<and> fft [3, 5] [9, 9] 2 = Some [8, - 2] \<and>
   fft (lin_comb 2 [1, 2] 3 [3, 5]) [4, 4] 2 = Some [30, - 8] \<and>
   (\<exists>fz. fft (lin_comb 2 [1, 2] 3 [3, 5]) [4, 4] 2 = Some fz \<and>
         fz ! 0 = 2 * [3, - 1] ! 0 + 3 * [8, - 2] ! 0 \<and>
         fz ! 1 = 2 * [3, - 1] ! 1 + 3 * [8, - 2] ! 1)"
proof -
  have e: "\<exists>m. (2::nat) = 2 ^ Suc m" by (rule exI [of _ 0]) simp
  have d: "dft [1, 2] [0, 0] 2 = Some [3, - 1]" "dft [3, 5] [9, 9] 2 = Some [8, - 2]"
    "dft (lin_comb 2 [1, 2] 3 [3, 5]) [4, 4] 2 = Some [30, - 8]"
    by (simp_all add: dft_list lin_comb_def upt_conv_Cons lessThan_Suc numeral_2_eq_2)
  have f: "fft [1, 2] [0, 0] 2 = Some [3, - 1]" "fft [3, 5] [9, 9] 2 = Some [8, - 2]"
    "fft (lin_comb 2 [1, 2] 3 [3, 5]) [4, 4] 2 = Some [30, - 8]"
    by (simp_all add: fft_list lin_comb_def upt_conv_Cons)
  have "\<exists>fx fy fz. fft [1, 2] [0, 0] 2 = Some fx \<and> fft [3, 5] [9, 9] 2 = Some fy \<and>
            fft (lin_comb 2 [1, 2] 3 [3, 5]) [4, 4] 2 = Some fz \<and>
            (\<forall>k<2. fz ! k = 2 * fx ! k + 3 * fy ! k)"
    using transforms_linear [of "[1, 2]" 2 "[3, 5]" "[0, 0]" "[9, 9]" "[4, 4]" 2 3] e
    by simp
  then have "\<exists>fz. fft (lin_comb 2 [1, 2] 3 [3, 5]) [4, 4] 2 = Some fz \<and>
         fz ! 0 = 2 * [3, - 1] ! 0 + 3 * [8, - 2] ! 0 \<and>
         fz ! 1 = 2 * [3, - 1] ! 1 + 3 * [8, - 2] ! 1"
    using f(1,2) by auto
  with d f show ?thesis by simp
qed

section \<open>Constant input\<close>

text \<open>
  C8. For the constant input of value \<open>c\<close> and length \<open>n \<ge> 1\<close>, bin \<open>0\<close> is to hold \<open>c\<cdot>n\<close>
  and every other bin \<open>0\<close>. \<^verbatim>\<open>dft\<close> does so for every \<open>n\<close> (\<open>dft_dc\<close>). \<^verbatim>\<open>fft\<close> does not:
  for \<open>c = 1\<close> and \<open>n = 4\<close> it returns \<open>[2, 1, 0, 1]\<close>, where \<^verbatim>\<open>dft\<close> returns
  \<open>[4, 0, 0, 0]\<close>.
\<close>

theorem fft_constant_input:
  "fft (replicate 4 1) [0, 0, 0, 0] 4 = Some [2, 1, 0, 1] \<and>
   dft (replicate 4 1) [0, 0, 0, 0] 4 = Some [4, 0, 0, 0]"
proof -
  have "fft (replicate 4 1) [0, 0, 0, 0] 4 = Some [2, 1, 0, 1]"
    by (simp add: fft_list upt_conv_Cons)
  moreover have "dft (replicate 4 1) [0, 0, 0, 0] 4 = Some [4, 0, 0, 0]"
    using dft_dc [of 4 "[0, 0, 0, 0]" 1] by (simp add: numeral_eq_Suc)
  ultimately show ?thesis by simp
qed

end
